theory Spec2Isabelle
  imports Complex_Main "HOL-Library.Sublist"
begin

section \<open>Power plant data merger: a model of carbonpre.py\<close>

text \<open>
  The development follows the helper functions of \<^verbatim>\<open>carbonpre.py\<close> in the order of the
  source. Python strings are modelled as \<^typ>\<open>string\<close>, that is as lists of 8-bit
  characters read as the code points 0 to 255; a Python value that may be missing
  (\<^verbatim>\<open>None\<close>, \<^verbatim>\<open>NaN\<close>) is an \<^typ>\<open>'a option\<close>.
\<close>

subsection \<open>Python string operations\<close>

text \<open>\<^verbatim>\<open>s.startswith(p)\<close> and the substring test \<^verbatim>\<open>p in s\<close>.\<close>

fun starts_with :: "string \<Rightarrow> string \<Rightarrow> bool" where
  "starts_with s [] = True"
| "starts_with [] (p # ps) = False"
| "starts_with (c # cs) (p # ps) = (c = p \<and> starts_with cs ps)"

fun contains :: "string \<Rightarrow> string \<Rightarrow> bool" where
  "contains [] p = (p = [])"
| "contains (c # cs) p = (starts_with (c # cs) p \<or> contains cs p)"

definition ascii_lowercase :: string where
  "ascii_lowercase = ''abcdefghijklmnopqrstuvwxyz''"

definition ascii_uppercase :: string where
  "ascii_uppercase = ''ABCDEFGHIJKLMNOPQRSTUVWXYZ''"

definition digits :: string where
  "digits = ''0123456789''"

text \<open>
  \<^verbatim>\<open>str.upper\<close> and \<^verbatim>\<open>str.lower\<close> on the letters A to Z; every other character
  is kept. (Among the code points below 256 Python changes further letters, all of them
  outside ASCII and none of them into an ASCII letter other than S.)
\<close>

definition upper_char :: "char \<Rightarrow> char" where
  "upper_char c = (case map_of (zip ascii_lowercase ascii_uppercase) c of
                     Some u \<Rightarrow> u | None \<Rightarrow> c)"

definition lower_char :: "char \<Rightarrow> char" where
  "lower_char c = (case map_of (zip ascii_uppercase ascii_lowercase) c of
                     Some l \<Rightarrow> l | None \<Rightarrow> c)"

definition upper :: "string \<Rightarrow> string" where
  "upper s = map upper_char s"

definition lower :: "string \<Rightarrow> string" where
  "lower s = map lower_char s"

subsection \<open>Column detection\<close>

text \<open>
  \<^verbatim>\<open>detect_generation_col\<close> runs two loops over the column names; each returns the
  first column that passes its test. \<open>first_col\<close> is such a loop.
\<close>

fun first_col :: "(string \<Rightarrow> bool) \<Rightarrow> string list \<Rightarrow> string option" where
  "first_col P [] = None"
| "first_col P (c # cs) = (if P c then Some c else first_col P cs)"

definition today_actual :: "string \<Rightarrow> bool" where
  "today_actual c =
     (let cname = upper c
      in contains cname ''TODAY'' \<and> contains cname ''ACTUAL''
         \<and> \<not> contains cname ''APRIL'' \<and> \<not> contains cname ''TILL'')"

definition actual_or_daily_gen :: "string \<Rightarrow> bool" where
  "actual_or_daily_gen c =
     (let cname = upper c
      in contains cname ''ACTUAL'' \<or> (contains cname ''DAILY'' \<and> contains cname ''GEN''))"

definition detect_generation_col :: "string list \<Rightarrow> string option" where
  "detect_generation_col columns =
     (case first_col today_actual columns of
        Some c \<Rightarrow> Some c
      | None \<Rightarrow> first_col actual_or_daily_gen columns)"

definition detect_coal_col :: "string list \<Rightarrow> string option" where
  "detect_coal_col columns =
     first_col (\<lambda>c. let cname = upper c
                    in contains cname ''CONSUM'' \<or> contains cname ''COAL'') columns"

subsection \<open>Name normalisation\<close>

text \<open>
  The characters that Python counts as whitespace among the code points below 256:
  \<^verbatim>\<open>\s\<close> in a regular expression over \<^verbatim>\<open>str\<close> and \<^verbatim>\<open>str.strip()\<close> use the
  same class. \<open>is_alnum\<close> is the class \<^verbatim>\<open>[A-Za-z0-9]\<close>.
\<close>

definition whitespace :: string where
  "whitespace = [CHR 0x09, CHR 0x0A, CHR 0x0B, CHR 0x0C, CHR 0x0D, CHR 0x1C, CHR 0x1D,
                 CHR 0x1E, CHR 0x1F, CHR '' '', CHR 0x85, CHR 0xA0]"

definition is_space :: "char \<Rightarrow> bool" where
  "is_space c = (c \<in> set whitespace)"

definition is_alnum :: "char \<Rightarrow> bool" where
  "is_alnum c = (c \<in> set (ascii_uppercase @ ascii_lowercase @ digits))"

text \<open>
  \<^verbatim>\<open>s.replace(old, new)\<close>: the occurrences of \<open>old\<close> are found from left to right and
  do not overlap; an empty \<open>old\<close> matches before every character and at the end.
\<close>

fun replace :: "string \<Rightarrow> string \<Rightarrow> string \<Rightarrow> string" where
  "replace old new [] = (if old = [] then new else [])"
| "replace old new (c # cs) =
     (if old = [] then new @ c # replace old new cs
      else if starts_with (c # cs) old
      then new @ replace old new (drop (length old - 1) cs)
      else c # replace old new cs)"

text \<open>
  \<^verbatim>\<open>re.sub(r"\(.*?\)", " ", s)\<close>: at an opening parenthesis the lazy \<^verbatim>\<open>.*?\<close> runs to
  the first closing parenthesis, and fails at a line feed, which \<^verbatim>\<open>.\<close> does not match;
  \<open>paren_close\<close> counts the characters before that closing parenthesis.
\<close>

fun paren_close :: "string \<Rightarrow> nat option" where
  "paren_close [] = None"
| "paren_close (c # cs) =
     (if c = CHR '')'' then Some 0
      else if c = CHR 0x0A then None
      else map_option Suc (paren_close cs))"

fun sub_parens :: "string \<Rightarrow> string" where
  "sub_parens [] = []"
| "sub_parens (c # cs) =
     (if c = CHR ''('' then
        (case paren_close cs of
           Some n \<Rightarrow> CHR '' '' # sub_parens (drop (Suc n) cs)
         | None \<Rightarrow> c # sub_parens cs)
      else c # sub_parens cs)"

text \<open>\<^verbatim>\<open>re.sub(r"[^A-Za-z0-9\s]", " ", s)\<close> and \<^verbatim>\<open>re.sub(r"\s+", " ", s)\<close>.\<close>

definition sub_punct :: "string \<Rightarrow> string" where
  "sub_punct s = map (\<lambda>c. if is_alnum c \<or> is_space c then c else CHR '' '') s"

function sub_spaces :: "string \<Rightarrow> string" where
  "sub_spaces [] = []"
| "sub_spaces (c # cs) =
     (if is_space c then CHR '' '' # sub_spaces (dropWhile is_space cs)
      else c # sub_spaces cs)"
  by pat_completeness auto
termination
  by (relation "measure length") (auto simp: length_dropWhile_le le_imp_less_Suc)

definition strip :: "string \<Rightarrow> string" where
  "strip s = rev (dropWhile is_space (rev (dropWhile is_space s)))"

text \<open>
  \<open>normalize_name\<close> on a string. The test \<^verbatim>\<open>pd.isna(s)\<close> for a missing value is made
  by the caller of this model, where the value is optional.
\<close>

definition normalize_name :: "string \<Rightarrow> string" where
  "normalize_name s0 =
     (let s = replace ''&'' '' and '' s0;
          s = sub_parens s;
          s = replace ''stps'' ''tps'' s;
          s = replace ''station'' ''stn'' s;
          s = replace ''power limited'' ''power'' s;
          s = sub_punct s
      in lower (strip (sub_spaces s)))"

subsection \<open>Sequence similarity\<close>

text \<open>
  \<^verbatim>\<open>difflib.SequenceMatcher(None, a, b).ratio()\<close> of the Python standard library, as
  \<open>find_best_match_index\<close> calls it: no junk function, \<^verbatim>\<open>autojunk\<close> left at its default.
  For a second sequence of 200 elements or more, the elements that make up more than one
  per cent of it (plus one) are popular and are left out of the index \<open>b2j\<close>.
\<close>

definition popular :: "string \<Rightarrow> char list" where
  "popular b =
     (let n = length b
      in if n \<ge> 200
         then filter (\<lambda>elt. count_list b elt > n div 100 + 1) (remdups b)
         else [])"

definition b2j :: "string \<Rightarrow> char \<Rightarrow> nat list" where
  "b2j b elt = (if elt \<in> set (popular b) then []
                else filter (\<lambda>j. b ! j = elt) [0..<length b])"

text \<open>
  \<open>find_longest_match\<close>: \<open>j2len\<close> maps a position \<open>j\<close> of \<open>b\<close> to the length of the longest
  match that ends at the previous row and at \<open>j\<close>; \<open>scan_row\<close> is the inner loop over the
  positions of \<open>a ! i\<close> in \<open>b\<close>, \<open>scan_rows\<close> the outer loop over \<open>i\<close>. The match found is
  then extended on both sides (with no junk, the two loops over junk elements do nothing).
\<close>

definition j2lenget :: "(nat \<times> nat) list \<Rightarrow> nat \<Rightarrow> nat" where
  "j2lenget j2len j =
     (if j = 0 then 0 else (case map_of j2len (j - 1) of None \<Rightarrow> 0 | Some k \<Rightarrow> k))"

type_synonym match = "nat \<times> nat \<times> nat"

fun scan_row ::
  "nat \<Rightarrow> nat \<Rightarrow> nat \<Rightarrow> (nat \<times> nat) list \<Rightarrow> nat list \<Rightarrow>
   (nat \<times> nat) list \<times> match \<Rightarrow> (nat \<times> nat) list \<times> match" where
  "scan_row blo bhi i j2len [] st = st"
| "scan_row blo bhi i j2len (j # js) (newj2len, besti, bestj, bestsize) =
     (if j < blo then scan_row blo bhi i j2len js (newj2len, besti, bestj, bestsize)
      else if j \<ge> bhi then (newj2len, besti, bestj, bestsize)
      else let k = j2lenget j2len j + 1
           in scan_row blo bhi i j2len js
                ((j, k) # newj2len,
                 if k > bestsize then (i + 1 - k, j + 1 - k, k) else (besti, bestj, bestsize)))"

function scan_rows ::
  "string \<Rightarrow> string \<Rightarrow> nat \<Rightarrow> nat \<Rightarrow> nat \<Rightarrow> nat \<Rightarrow> (nat \<times> nat) list \<Rightarrow> match \<Rightarrow> match" where
  "scan_rows a b blo bhi i ahi j2len best =
     (if i < ahi
      then (case scan_row blo bhi i j2len (b2j b (a ! i)) ([], best) of
              (newj2len, best') \<Rightarrow> scan_rows a b blo bhi (Suc i) ahi newj2len best')
      else best)"
  by pat_completeness auto
termination
  by (relation "measure (\<lambda>(a, b, blo, bhi, i, ahi, j2len, best). ahi - i)") auto

function extend_left :: "string \<Rightarrow> string \<Rightarrow> nat \<Rightarrow> nat \<Rightarrow> match \<Rightarrow> match" where
  "extend_left a b alo blo (besti, bestj, bestsize) =
     (if besti > alo \<and> bestj > blo \<and> a ! (besti - 1) = b ! (bestj - 1)
      then extend_left a b alo blo (besti - 1, bestj - 1, bestsize + 1)
      else (besti, bestj, bestsize))"
  by pat_completeness auto
termination
  by (relation "measure (\<lambda>(a, b, alo, blo, besti, bestj, bestsize). besti)") auto

function extend_right :: "string \<Rightarrow> string \<Rightarrow> nat \<Rightarrow> nat \<Rightarrow> match \<Rightarrow> match" where
  "extend_right a b ahi bhi (besti, bestj, bestsize) =
     (if besti + bestsize < ahi \<and> bestj + bestsize < bhi
         \<and> a ! (besti + bestsize) = b ! (bestj + bestsize)
      then extend_right a b ahi bhi (besti, bestj, bestsize + 1)
      else (besti, bestj, bestsize))"
  by pat_completeness auto
termination
  by (relation "measure (\<lambda>(a, b, ahi, bhi, besti, bestj, bestsize). ahi - (besti + bestsize))") auto

definition find_longest_match :: "string \<Rightarrow> string \<Rightarrow> nat \<Rightarrow> nat \<Rightarrow> nat \<Rightarrow> nat \<Rightarrow> match" where
  "find_longest_match a b alo ahi blo bhi =
     extend_right a b ahi bhi
       (extend_left a b alo blo (scan_rows a b blo bhi alo ahi [] (alo, blo, 0)))"


text \<open>
  The block that \<open>find_longest_match\<close> returns lies inside the rows \<open>alo\<close> to \<open>ahi\<close>; the
  recursion over the matching blocks terminates for that reason.
\<close>

declare extend_left.simps [simp del] extend_right.simps [simp del] scan_rows.simps [simp del]

definition row_ok :: "nat \<Rightarrow> nat \<Rightarrow> (nat \<times> nat) list \<times> match \<Rightarrow> bool" where
  "row_ok alo i st =
     ((\<forall>(j, v)\<in>set (fst st). v \<le> Suc i - alo) \<and> alo \<le> fst (snd st)
      \<and> fst (snd st) + snd (snd (snd st)) \<le> Suc i)"

definition best_ok :: "nat \<Rightarrow> nat \<Rightarrow> match \<Rightarrow> bool" where
  "best_ok alo i best = (alo \<le> fst best \<and> fst best + snd (snd best) \<le> i)"

lemma j2lenget_le:
  assumes "\<forall>(j, v)\<in>set j2len. v \<le> n"
  shows "j2lenget j2len j \<le> n"
proof (cases "j = 0 \<or> map_of j2len (j - 1) = None")
  case True
  then show ?thesis by (auto simp: j2lenget_def)
next
  case False
  then obtain v where v: "map_of j2len (j - 1) = Some v" by auto
  then have "(j - 1, v) \<in> set j2len" by (rule map_of_SomeD)
  with assms have "v \<le> n" by auto
  with False v show ?thesis by (simp add: j2lenget_def)
qed

lemma scan_row_ok:
  assumes j2: "\<forall>(j, v)\<in>set j2len. v \<le> i - alo" and lo: "alo \<le> i"
  shows "row_ok alo i st \<Longrightarrow> row_ok alo i (scan_row blo bhi i j2len js st)"
proof (induction js arbitrary: st)
  case Nil
  then show ?case by simp
next
  case (Cons j js)
  obtain new bi bj bs where st: "st = (new, bi, bj, bs)"
    by (cases st) auto
  let ?k = "j2lenget j2len j + 1"
  have k: "?k \<le> Suc i - alo"
    using j2lenget_le [OF j2, of j] lo by simp
  let ?best = "if ?k > bs then (i + 1 - ?k, j + 1 - ?k, ?k) else (bi, bj, bs)"
  have step: "row_ok alo i ((j, ?k) # new, ?best)"
    using Cons.prems k lo by (auto simp: row_ok_def st)
  consider (below) "j < blo" | (above) "\<not> j < blo" "j \<ge> bhi"
    | (inside) "\<not> j < blo" "\<not> j \<ge> bhi"
    by blast
  then show ?case
  proof cases
    case below
    then have "scan_row blo bhi i j2len (j # js) st = scan_row blo bhi i j2len js st"
      by (simp add: st)
    then show ?thesis using Cons.IH [OF Cons.prems] by simp
  next
    case above
    then have "scan_row blo bhi i j2len (j # js) st = st"
      by (simp add: st)
    then show ?thesis using Cons.prems by simp
  next
    case inside
    then have "scan_row blo bhi i j2len (j # js) st =
               scan_row blo bhi i j2len js ((j, ?k) # new, ?best)"
      by (simp add: st Let_def)
    then show ?thesis using Cons.IH [OF step] by simp
  qed
qed

lemma scan_rows_ok:
  "\<forall>(j, v)\<in>set j2len. v \<le> i - alo \<Longrightarrow> alo \<le> i \<Longrightarrow> best_ok alo i best \<Longrightarrow>
     best_ok alo (max i ahi) (scan_rows a b blo bhi i ahi j2len best)"
proof (induction a b blo bhi i ahi j2len best rule: scan_rows.induct)
  case (1 a b blo bhi i ahi j2len best)
  show ?case
  proof (cases "i < ahi")
    case False
    with "1.prems"(3) show ?thesis
      by (simp add: scan_rows.simps max_def)
  next
    case True
    obtain new best' where row:
      "scan_row blo bhi i j2len (b2j b (a ! i)) ([], best) = (new, best')"
      by (cases "scan_row blo bhi i j2len (b2j b (a ! i)) ([], best)") auto
    have "row_ok alo i ([], best)"
      using "1.prems"(3) by (simp add: row_ok_def best_ok_def)
    then have "row_ok alo i (new, best')"
      using scan_row_ok [OF "1.prems"(1,2), of "([], best)" blo bhi "b2j b (a ! i)"] row
      by simp
    then have new: "\<forall>(j, v)\<in>set new. v \<le> Suc i - alo" and b': "best_ok alo (Suc i) best'"
      by (simp_all add: row_ok_def best_ok_def)
    have "best_ok alo (max (Suc i) ahi) (scan_rows a b blo bhi (Suc i) ahi new best')"
      using "1.IH" [OF True row [symmetric] new _ b'] "1.prems"(2) by simp
    moreover have "scan_rows a b blo bhi i ahi j2len best =
                   scan_rows a b blo bhi (Suc i) ahi new best'"
      using True row by (simp add: scan_rows.simps [of a b blo bhi i])
    ultimately show ?thesis using True by (simp add: max_def)
  qed
qed

lemma extend_left_ok:
  "best_ok alo n m \<Longrightarrow> best_ok alo n (extend_left a b alo blo m)"
proof (induction a b alo blo m rule: extend_left.induct)
  case (1 a b alo blo besti bestj bestsize)
  show ?case
  proof (cases "besti > alo \<and> bestj > blo \<and> a ! (besti - 1) = b ! (bestj - 1)")
    case True
    have "best_ok alo n (besti - 1, bestj - 1, bestsize + 1)"
      using "1.prems" True by (auto simp: best_ok_def)
    then have "best_ok alo n (extend_left a b alo blo (besti - 1, bestj - 1, bestsize + 1))"
      by (rule "1.IH" [OF True])
    moreover have "extend_left a b alo blo (besti, bestj, bestsize) =
                   extend_left a b alo blo (besti - 1, bestj - 1, bestsize + 1)"
      by (subst extend_left.simps) (use True in simp)
    ultimately show ?thesis by simp
  next
    case False
    have "extend_left a b alo blo (besti, bestj, bestsize) = (besti, bestj, bestsize)"
      by (subst extend_left.simps) (use False in auto)
    with "1.prems" show ?thesis by simp
  qed
qed

lemma extend_right_ok:
  "best_ok alo ahi m \<Longrightarrow> best_ok alo ahi (extend_right a b ahi bhi m)"
proof (induction a b ahi bhi m rule: extend_right.induct)
  case (1 a b ahi bhi besti bestj bestsize)
  show ?case
  proof (cases "besti + bestsize < ahi \<and> bestj + bestsize < bhi
                \<and> a ! (besti + bestsize) = b ! (bestj + bestsize)")
    case True
    have "best_ok alo ahi (besti, bestj, bestsize + 1)"
      using "1.prems" True by (auto simp: best_ok_def)
    then have "best_ok alo ahi (extend_right a b ahi bhi (besti, bestj, bestsize + 1))"
      by (rule "1.IH" [OF True])
    moreover have "extend_right a b ahi bhi (besti, bestj, bestsize) =
                   extend_right a b ahi bhi (besti, bestj, bestsize + 1)"
      by (subst extend_right.simps) (use True in simp)
    ultimately show ?thesis by simp
  next
    case False
    have "extend_right a b ahi bhi (besti, bestj, bestsize) = (besti, bestj, bestsize)"
      by (subst extend_right.simps) (use False in auto)
    with "1.prems" show ?thesis by simp
  qed
qed

lemma find_longest_match_empty:
  "ahi \<le> alo \<Longrightarrow> find_longest_match a b alo ahi blo bhi = (alo, blo, 0)"
  by (simp add: find_longest_match_def scan_rows.simps extend_left.simps extend_right.simps)

lemma find_longest_match_bounds:
  assumes "find_longest_match a b alo ahi blo bhi = (i, j, k)" and "k \<noteq> 0"
  shows "alo \<le> i \<and> i + k \<le> ahi"
proof (cases "ahi \<le> alo")
  case True
  with assms show ?thesis by (simp add: find_longest_match_empty)
next
  case False
  have "best_ok alo (max alo ahi) (scan_rows a b blo bhi alo ahi [] (alo, blo, 0))"
    by (rule scan_rows_ok) (simp_all add: best_ok_def)
  then have "best_ok alo ahi (scan_rows a b blo bhi alo ahi [] (alo, blo, 0))"
    using False by (simp add: max_def)
  then have "best_ok alo ahi (find_longest_match a b alo ahi blo bhi)"
    unfolding find_longest_match_def by (intro extend_right_ok extend_left_ok)
  with assms(1) show ?thesis by (simp add: best_ok_def)
qed

text \<open>
  \<open>get_matching_blocks\<close> finds the longest block, then the blocks to its left and to its
  right. \<open>ratio\<close> needs the sum of the block sizes only, which \<open>matches\<close> computes. The
  quotient is exact here; Python rounds it to a double, which keeps the order between two
  such quotients, and between one of them and 0.55, for texts that fit a spreadsheet cell.
\<close>

function matches :: "string \<Rightarrow> string \<Rightarrow> nat \<Rightarrow> nat \<Rightarrow> nat \<Rightarrow> nat \<Rightarrow> nat" where
  "matches a b alo ahi blo bhi =
     (case find_longest_match a b alo ahi blo bhi of
        (i, j, k) \<Rightarrow>
          if k = 0 then 0
          else k + (if alo < i \<and> blo < j then matches a b alo i blo j else 0)
                 + (if i + k < ahi \<and> j + k < bhi then matches a b (i + k) ahi (j + k) bhi else 0))"
  by pat_completeness auto
termination
proof (relation "measure (\<lambda>(a, b, alo, ahi, blo, bhi). ahi - alo)")
  show "wf (measure (\<lambda>(a, b, alo, ahi, blo, bhi). ahi - alo))" by simp
next
  fix a b alo ahi blo bhi i y j k
  assume "(i, y) = find_longest_match a b alo ahi blo bhi" "(j, k) = y" and k: "k \<noteq> 0"
  then have "find_longest_match a b alo ahi blo bhi = (i, j, k)" by simp
  from find_longest_match_bounds [OF this k] k
  have "i - alo < ahi - alo" by arith
  then show "((a, b, alo, i, blo, j), (a, b, alo, ahi, blo, bhi))
        \<in> measure (\<lambda>(a, b, alo, ahi, blo, bhi). ahi - alo)"
    by simp
next
  fix a b alo ahi blo bhi i y j k
  assume "(i, y) = find_longest_match a b alo ahi blo bhi" "(j, k) = y" and k: "k \<noteq> 0"
    and right: "i + k < ahi \<and> j + k < bhi"
  then have "find_longest_match a b alo ahi blo bhi = (i, j, k)" by simp
  from find_longest_match_bounds [OF this k] k right
  have "ahi - (i + k) < ahi - alo" by arith
  then show "((a, b, i + k, ahi, j + k, bhi), (a, b, alo, ahi, blo, bhi))
        \<in> measure (\<lambda>(a, b, alo, ahi, blo, bhi). ahi - alo)"
    by simp
qed

definition ratio :: "string \<Rightarrow> string \<Rightarrow> rat" where
  "ratio a b =
     (let length = length a + length b
      in if length \<noteq> 0
         then 2 * of_nat (matches a b 0 (List.length a) 0 (List.length b)) / of_nat length
         else 1)"

subsection \<open>Plant name matching\<close>

text \<open>
  \<open>find_best_match_index\<close>. The series is the list of its values, a missing value being
  \<open>None\<close>; the index returned is the position in the series, which is the label that
  \<^verbatim>\<open>series.index[i]\<close> gives for the default index of a frame read from a file. The three
  loops over \<^verbatim>\<open>enumerate(candidates)\<close> carry the position \<open>i\<close>. With \<^verbatim>\<open>debug\<close> off the
  function only returns.
\<close>

fun exact_tier :: "string \<Rightarrow> nat \<Rightarrow> string list \<Rightarrow> nat option" where
  "exact_tier n_target i [] = None"
| "exact_tier n_target i (cand # cands) =
     (if cand \<noteq> [] \<and> cand = n_target then Some i
      else exact_tier n_target (Suc i) cands)"

fun substring_tier :: "string \<Rightarrow> nat \<Rightarrow> string list \<Rightarrow> nat option" where
  "substring_tier n_target i [] = None"
| "substring_tier n_target i (cand # cands) =
     (if cand = [] then substring_tier n_target (Suc i) cands
      else if n_target \<noteq> [] \<and> contains cand n_target then Some i
      else if contains n_target cand \<and> cand \<noteq> [] then Some i
      else substring_tier n_target (Suc i) cands)"

fun fuzzy_tier :: "string \<Rightarrow> nat \<Rightarrow> string list \<Rightarrow> rat \<times> nat option \<Rightarrow> rat \<times> nat option" where
  "fuzzy_tier n_target i [] best = best"
| "fuzzy_tier n_target i (cand # cands) (best_ratio, best_idx) =
     (if cand = [] then fuzzy_tier n_target (Suc i) cands (best_ratio, best_idx)
      else if ratio n_target cand > best_ratio
      then fuzzy_tier n_target (Suc i) cands (ratio n_target cand, Some i)
      else fuzzy_tier n_target (Suc i) cands (best_ratio, best_idx))"

definition candidates :: "string option list \<Rightarrow> string list" where
  "candidates series = map (\<lambda>v. case v of None \<Rightarrow> [] | Some s \<Rightarrow> normalize_name s) series"

definition find_best_match_index :: "string option list \<Rightarrow> string \<Rightarrow> rat \<Rightarrow> nat option" where
  "find_best_match_index series plant_name min_ratio =
     (if series = [] then None
      else let n_target = normalize_name plant_name;
               cands = candidates series
           in case exact_tier n_target 0 cands of
                Some i \<Rightarrow> Some i
              | None \<Rightarrow>
                  (case substring_tier n_target 0 cands of
                     Some i \<Rightarrow> Some i
                   | None \<Rightarrow>
                       (case fuzzy_tier n_target 0 cands (0, None) of
                          (best_ratio, best_idx) \<Rightarrow>
                            if best_ratio \<ge> min_ratio then best_idx else None)))"

section \<open>Properties\<close>

subsection \<open>String operations\<close>

lemma starts_with_prefix: "starts_with s p = prefix p s"
  by (induction s p rule: starts_with.induct) auto

lemma contains_sublist: "contains s p = sublist p s"
  by (induction s) (auto simp: starts_with_prefix sublist_Cons_right)

subsection \<open>Column detection\<close>

text \<open>The position of the first element that passes a test.\<close>

definition first_at :: "('a \<Rightarrow> bool) \<Rightarrow> 'a list \<Rightarrow> nat \<Rightarrow> bool" where
  "first_at P xs i = (i < length xs \<and> P (xs ! i) \<and> (\<forall>x\<in>set (take i xs). \<not> P x))"

lemma first_col_None: "first_col P cs = None \<longleftrightarrow> (\<forall>c\<in>set cs. \<not> P c)"
  by (induction cs) auto

lemma first_at_Cons:
  "first_at P (x # xs) i \<longleftrightarrow>
     (if P x then i = 0 else (\<exists>k. i = Suc k \<and> first_at P xs k))"
  by (cases i) (auto simp: first_at_def)

lemma first_at_unique: "first_at P xs i \<Longrightarrow> first_at P xs j \<Longrightarrow> i = j"
proof (induction xs arbitrary: i j)
  case Nil
  then show ?case by (simp add: first_at_def)
next
  case (Cons x xs)
  then show ?case by (auto simp: first_at_Cons split: if_splits)
qed

lemma first_at_set: "first_at P xs i \<Longrightarrow> \<exists>x\<in>set xs. P x"
  by (auto simp: first_at_def)

lemma first_col_Some:
  "first_col P cs = Some c \<longleftrightarrow> (\<exists>i. first_at P cs i \<and> cs ! i = c)"
proof (induction cs)
  case Nil
  then show ?case by (simp add: first_at_def)
next
  case (Cons x xs)
  show ?case
  proof (cases "P x")
    case True
    then show ?thesis by (auto simp: first_at_Cons)
  next
    case False
    then show ?thesis using Cons.IH by (auto simp: first_at_Cons)
  qed
qed

lemma detect_generation_col_cases:
  "(detect_generation_col cols = Some c \<longleftrightarrow>
      (\<exists>i. first_at today_actual cols i \<and> cols ! i = c)
      \<or> ((\<forall>x\<in>set cols. \<not> today_actual x)
          \<and> (\<exists>i. first_at actual_or_daily_gen cols i \<and> cols ! i = c)))
   \<and> (detect_generation_col cols = None \<longleftrightarrow>
      (\<forall>x\<in>set cols. \<not> today_actual x \<and> \<not> actual_or_daily_gen x))"
proof (cases "first_col today_actual cols")
  case None
  then have no: "\<forall>x\<in>set cols. \<not> today_actual x"
    by (simp add: first_col_None)
  then have "\<not> (\<exists>i. first_at today_actual cols i \<and> cols ! i = c)"
    by (auto simp: first_at_def)
  moreover have "detect_generation_col cols = first_col actual_or_daily_gen cols"
    using None by (simp add: detect_generation_col_def)
  ultimately show ?thesis using no
    by (auto simp: first_col_Some first_col_None)
next
  case (Some d)
  then have ex: "\<exists>i. first_at today_actual cols i \<and> cols ! i = d"
    by (simp add: first_col_Some)
  then have "\<exists>x\<in>set cols. today_actual x"
    by (auto simp: first_at_def)
  moreover have "(\<exists>i. first_at today_actual cols i \<and> cols ! i = c) \<longleftrightarrow> d = c"
    using Some by (simp add: first_col_Some [symmetric])
  ultimately show ?thesis using Some
    by (auto simp: detect_generation_col_def)
qed

lemma today_actual_sublist:
  "today_actual =
     (\<lambda>x. sublist ''TODAY'' (upper x) \<and> sublist ''ACTUAL'' (upper x)
          \<and> \<not> sublist ''APRIL'' (upper x) \<and> \<not> sublist ''TILL'' (upper x))"
  by (simp add: fun_eq_iff today_actual_def contains_sublist Let_def)

lemma actual_or_daily_gen_sublist:
  "actual_or_daily_gen =
     (\<lambda>x. sublist ''ACTUAL'' (upper x)
          \<or> (sublist ''DAILY'' (upper x) \<and> sublist ''GEN'' (upper x)))"
  by (simp add: fun_eq_iff actual_or_daily_gen_def contains_sublist Let_def)

text \<open>
  C8. \<open>detect_generation_col\<close> returns the first column whose upper-cased name has TODAY
  and ACTUAL as substrings but neither APRIL nor TILL; when there is no such column, the
  first column whose upper-cased name has ACTUAL, or has both DAILY and GEN; and nothing
  when no column passes either test. The tests are written out with the substring relation
  \<open>sublist\<close> of the library.
\<close>

theorem detect_generation_col_first_match:
  "(detect_generation_col cols = Some c \<longleftrightarrow>
      (\<exists>i. first_at (\<lambda>x. sublist ''TODAY'' (upper x) \<and> sublist ''ACTUAL'' (upper x)
                         \<and> \<not> sublist ''APRIL'' (upper x) \<and> \<not> sublist ''TILL'' (upper x))
              cols i
           \<and> cols ! i = c)
      \<or> ((\<forall>x\<in>set cols. \<not> (sublist ''TODAY'' (upper x) \<and> sublist ''ACTUAL'' (upper x)
                             \<and> \<not> sublist ''APRIL'' (upper x) \<and> \<not> sublist ''TILL'' (upper x)))
          \<and> (\<exists>i. first_at (\<lambda>x. sublist ''ACTUAL'' (upper x)
                               \<or> (sublist ''DAILY'' (upper x) \<and> sublist ''GEN'' (upper x)))
                    cols i
                 \<and> cols ! i = c)))
   \<and> (detect_generation_col cols = None \<longleftrightarrow>
      (\<forall>x\<in>set cols.
          \<not> (sublist ''TODAY'' (upper x) \<and> sublist ''ACTUAL'' (upper x)
             \<and> \<not> sublist ''APRIL'' (upper x) \<and> \<not> sublist ''TILL'' (upper x))
          \<and> \<not> (sublist ''ACTUAL'' (upper x)
                \<or> (sublist ''DAILY'' (upper x) \<and> sublist ''GEN'' (upper x)))))"
  using detect_generation_col_cases [of cols c]
  unfolding today_actual_sublist actual_or_daily_gen_sublist .

theorem detect_generation_col_first_match_witness:
  "detect_generation_col
     [''Station'', ''Today Actual till date'', ''Today Actual (MU)'', ''ACTUAL''] =
     Some ''Today Actual (MU)''
   \<and> detect_generation_col [''Station'', ''Today (April)'', ''Daily Gen (MU)'', ''Actual''] =
     Some ''Daily Gen (MU)''
   \<and> detect_generation_col [''Station'', ''Capacity (MW)'', ''Daily PLF''] = None"
proof -
  let ?r1 = "\<lambda>x. sublist ''TODAY'' (upper x) \<and> sublist ''ACTUAL'' (upper x)
                \<and> \<not> sublist ''APRIL'' (upper x) \<and> \<not> sublist ''TILL'' (upper x)"
  let ?r2 = "\<lambda>x. sublist ''ACTUAL'' (upper x)
                \<or> (sublist ''DAILY'' (upper x) \<and> sublist ''GEN'' (upper x))"
  let ?a = "[''Station'', ''Today Actual till date'', ''Today Actual (MU)'', ''ACTUAL'']"
  let ?b = "[''Station'', ''Today (April)'', ''Daily Gen (MU)'', ''Actual'']"
  let ?c = "[''Station'', ''Capacity (MW)'', ''Daily PLF'']"
  have a: "first_at ?r1 ?a 2 \<and> ?a ! 2 = ''Today Actual (MU)''"
    unfolding first_at_def by code_simp
  have b: "(\<forall>x\<in>set ?b. \<not> ?r1 x) \<and> first_at ?r2 ?b 2 \<and> ?b ! 2 = ''Daily Gen (MU)''"
    unfolding first_at_def by code_simp
  have c: "\<forall>x\<in>set ?c. \<not> ?r1 x \<and> \<not> ?r2 x"
    by code_simp
  from a have "detect_generation_col ?a = Some ''Today Actual (MU)''"
    using detect_generation_col_first_match [of ?a "''Today Actual (MU)''"] by blast
  moreover from b have "detect_generation_col ?b = Some ''Daily Gen (MU)''"
    using detect_generation_col_first_match [of ?b "''Daily Gen (MU)''"] by blast
  moreover from c have "detect_generation_col ?c = None"
    using detect_generation_col_first_match [of ?c undefined] by blast
  ultimately show ?thesis by simp
qed

subsection \<open>Name normalisation\<close>

definition norm_chars :: "char set" where
  "norm_chars = set (ascii_lowercase @ digits @ '' '')"

lemma lower_char_norm_all: "\<forall>c\<in>norm_chars. lower_char c = c"
  by code_simp

lemma lower_char_alnum_all:
  "\<forall>c\<in>set (ascii_uppercase @ ascii_lowercase @ digits). lower_char c \<in> norm_chars"
  by code_simp

lemma alnum_not_space_all:
  "\<forall>c\<in>set (ascii_uppercase @ ascii_lowercase @ digits). c \<notin> set whitespace"
  by code_simp

lemma norm_chars_alnum_all:
  "\<forall>c\<in>norm_chars. c \<in> set (ascii_uppercase @ ascii_lowercase @ digits) \<or> c = CHR '' ''"
  by code_simp

lemma norm_chars_special: "CHR ''&'' \<notin> norm_chars \<and> CHR ''('' \<notin> norm_chars"
  by code_simp

lemma is_space_blank: "is_space (CHR '' '')"
  by code_simp

lemma blank_norm: "CHR '' '' \<in> norm_chars"
  by code_simp

lemma alnum_not_space: "is_alnum c \<Longrightarrow> \<not> is_space c"
  using alnum_not_space_all by (simp add: is_alnum_def is_space_def)

lemma contains_single: "contains s [c] \<longleftrightarrow> c \<in> set s"
  by (induction s) auto

lemma replace_absent: "old \<noteq> [] \<Longrightarrow> \<not> contains s old \<Longrightarrow> replace old new s = s"
  by (induction s) auto

lemma sub_parens_absent: "CHR ''('' \<notin> set s \<Longrightarrow> sub_parens s = s"
  by (induction s) auto

lemma sub_punct_absent: "\<forall>c\<in>set s. is_alnum c \<or> is_space c \<Longrightarrow> sub_punct s = s"
  by (simp add: sub_punct_def map_idI)

lemma lower_absent: "set s \<subseteq> norm_chars \<Longrightarrow> lower s = s"
  using lower_char_norm_all by (auto simp: lower_def intro: map_idI)

lemma lower_char_cases:
  "lower_char c = c \<or> (c \<in> set ascii_uppercase \<and> lower_char c \<in> set ascii_lowercase)"
proof (cases "map_of (zip ascii_uppercase ascii_lowercase) c")
  case None
  then show ?thesis by (simp add: lower_char_def)
next
  case (Some l)
  then have "(c, l) \<in> set (zip ascii_uppercase ascii_lowercase)"
    by (rule map_of_SomeD)
  then have "c \<in> set ascii_uppercase" "l \<in> set ascii_lowercase"
    by (auto dest: set_zip_leftD set_zip_rightD)
  with Some show ?thesis by (simp add: lower_char_def)
qed

lemma is_space_lower_char: "is_space (lower_char c) = is_space c"
  using lower_char_cases [of c] alnum_not_space [of c] alnum_not_space [of "lower_char c"]
  by (auto simp: is_alnum_def)

text \<open>
  The shape of a normalised name: \<open>weak\<close> says that every whitespace character is a
  blank that no whitespace follows; \<open>spaced\<close> says moreover that the text does not end
  with a blank.
\<close>

fun weak :: "string \<Rightarrow> bool" where
  "weak [] = True"
| "weak [c] = (is_space c \<longrightarrow> c = CHR '' '')"
| "weak (c # d # cs) = ((is_space c \<longrightarrow> c = CHR '' '' \<and> \<not> is_space d) \<and> weak (d # cs))"

fun spaced :: "string \<Rightarrow> bool" where
  "spaced [] = True"
| "spaced [c] = (\<not> is_space c)"
| "spaced (c # d # cs) = ((is_space c \<longrightarrow> c = CHR '' '' \<and> \<not> is_space d) \<and> spaced (d # cs))"

lemma weak_sub_spaces: "weak (sub_spaces s)"
proof (induction s rule: sub_spaces.induct)
  case 1
  then show ?case by simp
next
  case (2 c cs)
  show ?case
  proof (cases "is_space c")
    case True
    show ?thesis
    proof (cases "dropWhile is_space cs")
      case Nil
      then have "sub_spaces (c # cs) = '' ''"
        using True by (simp del: dropWhile_eq_Nil_conv)
      then show ?thesis by simp
    next
      case (Cons d ds)
      then have nd: "\<not> is_space d"
        using hd_dropWhile [of is_space cs] by auto
      have "weak (sub_spaces (d # ds))"
        using 2(1) True Cons by simp
      moreover have "sub_spaces (c # cs) = CHR '' '' # sub_spaces (d # ds)"
        using True Cons by simp
      ultimately show ?thesis using nd by simp
    qed
  next
    case False
    with 2(2) show ?thesis by (cases "sub_spaces cs") auto
  qed
qed

lemma weak_Cons: "weak (c # cs) \<Longrightarrow> weak cs"
  by (cases cs) auto

lemma weak_dropWhile: "weak s \<Longrightarrow> weak (dropWhile P s)"
  by (induction s) (auto dest: weak_Cons)

lemma weak_prefix: "weak (xs @ ys) \<Longrightarrow> weak xs"
proof (induction xs rule: weak.induct)
  case 1
  then show ?case by simp
next
  case (2 c)
  then show ?case by (cases ys) auto
next
  case (3 c d cs)
  then show ?case by auto
qed

lemma weak_spaced: "weak s \<Longrightarrow> s = [] \<or> \<not> is_space (last s) \<Longrightarrow> spaced s"
  by (induction s rule: weak.induct) auto

lemma spaced_weak: "spaced s \<Longrightarrow> weak s"
  by (induction s rule: spaced.induct) auto

lemma spaced_last: "spaced s \<Longrightarrow> s \<noteq> [] \<Longrightarrow> \<not> is_space (last s)"
  by (induction s rule: spaced.induct) auto

definition normal :: "string \<Rightarrow> bool" where
  "normal s = (spaced s \<and> (s = [] \<or> \<not> is_space (hd s)))"

lemma strip_prefix_suffix:
  "\<exists>ys. dropWhile is_space s = strip s @ ys"
proof -
  have "dropWhile is_space s =
        rev (dropWhile is_space (rev (dropWhile is_space s)))
        @ rev (takeWhile is_space (rev (dropWhile is_space s)))"
    using takeWhile_dropWhile_id [of is_space "rev (dropWhile is_space s)"]
          rev_append [of "takeWhile is_space (rev (dropWhile is_space s))"
                         "dropWhile is_space (rev (dropWhile is_space s))"]
    by simp
  then show ?thesis by (auto simp: strip_def)
qed

lemma strip_last: "strip s = [] \<or> \<not> is_space (last (strip s))"
proof (cases "dropWhile is_space (rev (dropWhile is_space s))")
  case Nil
  then show ?thesis by (simp add: strip_def)
next
  case (Cons d ds)
  then have "\<not> is_space d"
    using hd_dropWhile [of is_space "rev (dropWhile is_space s)"] by auto
  with Cons show ?thesis by (simp add: strip_def)
qed

lemma strip_hd: "strip s = [] \<or> \<not> is_space (hd (strip s))"
proof (cases "strip s")
  case Nil
  then show ?thesis by simp
next
  case (Cons d ds)
  obtain ys where ys: "dropWhile is_space s = strip s @ ys"
    using strip_prefix_suffix [of s] by (elim exE)
  have "dropWhile is_space s = d # ds @ ys"
    unfolding ys Cons by simp
  then have "\<not> is_space d"
    using hd_dropWhile [of is_space s] by auto
  with Cons show ?thesis by simp
qed

lemma normal_strip: "weak s \<Longrightarrow> normal (strip s)"
proof -
  assume w: "weak s"
  obtain ys where ys: "dropWhile is_space s = strip s @ ys"
    using strip_prefix_suffix [of s] by (elim exE)
  from w have "weak (dropWhile is_space s)" by (rule weak_dropWhile)
  with ys have "weak (strip s)" by (simp add: weak_prefix)
  then have "spaced (strip s)" using strip_last by (rule weak_spaced)
  then show ?thesis using strip_hd by (simp add: normal_def)
qed

lemma spaced_sub_spaces: "spaced s \<Longrightarrow> sub_spaces s = s"
  by (induction s rule: spaced.induct) auto

lemma normal_strip_id: "normal s \<Longrightarrow> strip s = s"
proof -
  assume n: "normal s"
  show ?thesis
  proof (cases s)
    case Nil
    then show ?thesis by (simp add: strip_def)
  next
    case (Cons c cs)
    with n have h: "\<not> is_space (hd s)" and l: "\<not> is_space (last s)"
      by (auto simp: normal_def dest: spaced_last)
    from h Cons have "dropWhile is_space s = s" by simp
    moreover have "hd (rev s) = last s"
      using Cons by (simp add: hd_rev)
    with l Cons have "dropWhile is_space (rev s) = rev s"
      by (cases "rev s") simp_all
    ultimately show ?thesis by (simp add: strip_def)
  qed
qed

lemma normal_lower: "normal s \<Longrightarrow> normal (lower s)"
proof -
  have sp: "spaced s \<Longrightarrow> spaced (lower s)" for s
    by (induction s rule: spaced.induct)
       (auto simp: lower_def is_space_lower_char lower_char_norm_all blank_norm)
  assume "normal s"
  then show ?thesis
    using sp [of s] by (cases s) (auto simp: normal_def lower_def is_space_lower_char)
qed

lemma set_sub_punct: "c \<in> set (sub_punct s) \<Longrightarrow> is_alnum c \<or> is_space c"
  by (auto simp: sub_punct_def is_space_blank)

lemma set_sub_spaces:
  "c \<in> set (sub_spaces s) \<Longrightarrow> (c \<in> set s \<and> \<not> is_space c) \<or> c = CHR '' ''"
proof (induction s rule: sub_spaces.induct)
  case 1
  then show ?case by simp
next
  case (2 d ds)
  show ?case
  proof (cases "is_space d")
    case True
    with 2(1,3) show ?thesis by (auto dest: set_dropWhileD)
  next
    case False
    with 2(2,3) show ?thesis by auto
  qed
qed

lemma set_strip: "c \<in> set (strip s) \<Longrightarrow> c \<in> set s"
proof -
  assume "c \<in> set (strip s)"
  then have "c \<in> set (dropWhile is_space (rev (dropWhile is_space s)))"
    by (simp add: strip_def)
  then have "c \<in> set (rev (dropWhile is_space s))"
    by (rule set_dropWhileD)
  then have "c \<in> set (dropWhile is_space s)"
    by simp
  then show ?thesis
    by (rule set_dropWhileD)
qed

lemma set_lower_alnum:
  "\<forall>c\<in>set s. is_alnum c \<or> c = CHR '' '' \<Longrightarrow> set (lower s) \<subseteq> norm_chars"
  using lower_char_alnum_all lower_char_norm_all blank_norm
  by (auto simp: lower_def is_alnum_def)

definition tidy :: "string \<Rightarrow> string" where
  "tidy s = lower (strip (sub_spaces (sub_punct s)))"

lemma normalize_name_tidy:
  "normalize_name s =
     tidy (replace ''power limited'' ''power'' (replace ''station'' ''stn''
       (replace ''stps'' ''tps'' (sub_parens (replace ''&'' '' and '' s)))))"
  by (simp add: normalize_name_def tidy_def Let_def)

lemma tidy_chars: "set (tidy s) \<subseteq> norm_chars"
proof -
  have "\<forall>c\<in>set (strip (sub_spaces (sub_punct s))). is_alnum c \<or> c = CHR '' ''"
    by (auto dest!: set_strip set_sub_spaces set_sub_punct)
  then show ?thesis unfolding tidy_def by (rule set_lower_alnum)
qed

lemma tidy_normal: "normal (tidy s)"
  unfolding tidy_def by (intro normal_lower normal_strip weak_sub_spaces)

lemma tidy_fixed: "set s \<subseteq> norm_chars \<Longrightarrow> normal s \<Longrightarrow> tidy s = s"
proof -
  assume cs: "set s \<subseteq> norm_chars" and n: "normal s"
  have "\<forall>c\<in>set s. is_alnum c \<or> is_space c"
    using cs norm_chars_alnum_all is_space_blank by (auto simp: is_alnum_def)
  then have 1: "sub_punct s = s" by (rule sub_punct_absent)
  from n have 2: "sub_spaces s = s" by (simp add: normal_def spaced_sub_spaces)
  from n have 3: "strip s = s" by (rule normal_strip_id)
  from cs have 4: "lower s = s" by (rule lower_absent)
  show ?thesis by (simp add: tidy_def 1 2 3 4)
qed

lemma normalize_name_chars: "set (normalize_name s) \<subseteq> norm_chars"
  by (simp add: normalize_name_tidy tidy_chars)

lemma normalize_name_normal: "normal (normalize_name s)"
  by (simp add: normalize_name_tidy tidy_normal)

definition abbreviated :: "string \<Rightarrow> bool" where
  "abbreviated s = (contains s ''stps'' \<or> contains s ''station'' \<or> contains s ''power limited'')"

lemma normalize_name_fixed:
  assumes cs: "set s \<subseteq> norm_chars" and n: "normal s" and a: "\<not> abbreviated s"
  shows "normalize_name s = s"
proof -
  from cs norm_chars_special have "CHR ''&'' \<notin> set s" "CHR ''('' \<notin> set s"
    by auto
  then have 1: "replace ''&'' '' and '' s = s" and 2: "sub_parens s = s"
    by (simp_all add: replace_absent contains_single sub_parens_absent)
  from a have 3: "replace ''stps'' ''tps'' s = s"
    and 4: "replace ''station'' ''stn'' s = s"
    and 5: "replace ''power limited'' ''power'' s = s"
    by (simp_all add: abbreviated_def replace_absent)
  show ?thesis
    unfolding normalize_name_tidy 1 2 3 4 5 using cs n by (rule tidy_fixed)
qed

text \<open>
  C4 (as the claim states it). \<open>normalize_name\<close> is not idempotent: a substitution can
  leave or create a text that a second pass takes again. Replacing \<open>stps\<close> in \<open>sstps\<close>
  leaves \<open>stps\<close>, and the hyphen of \<open>power-limited\<close> becomes a blank only after the
  literal \<open>power limited\<close> has been looked for, so the second pass finds it.
\<close>

theorem normalize_name_not_idempotent:
  "normalize_name (normalize_name ''sstps'') \<noteq> normalize_name ''sstps''
   \<and> normalize_name (normalize_name ''power-limited'') \<noteq> normalize_name ''power-limited''"
  by code_simp

lemma normalize_name_twice_steps:
  "normalize_name ''sstps'' = ''stps'' \<and> normalize_name ''stps'' = ''tps''
   \<and> normalize_name ''power-limited'' = ''power limited''
   \<and> normalize_name ''power limited'' = ''power''"
  by code_simp

text \<open>
  C4 (amended). For every input \<open>x\<close> whose normalised form holds none of the literals
  \<open>stps\<close>, \<open>station\<close> and \<open>power limited\<close>, normalising twice gives the same text as
  normalising once.
\<close>

theorem normalize_name_idempotent_unless_abbreviated:
  "\<not> abbreviated (normalize_name x) \<Longrightarrow>
     normalize_name (normalize_name x) = normalize_name x"
  by (rule normalize_name_fixed [OF normalize_name_chars normalize_name_normal])

theorem normalize_name_idempotent_unless_abbreviated_witness:
  "\<not> abbreviated (normalize_name ''Mettur TPS - II (Ext.) & Co'')
   \<and> normalize_name (normalize_name ''Mettur TPS - II (Ext.) & Co'') =
       normalize_name ''Mettur TPS - II (Ext.) & Co''"
proof -
  have "\<not> abbreviated (normalize_name ''Mettur TPS - II (Ext.) & Co'')"
    by code_simp
  then show ?thesis
    using normalize_name_idempotent_unless_abbreviated by blast
qed

subsection \<open>Plant name matching\<close>

text \<open>
  The tests of the first two loops, and the row that the third loop keeps: a non-empty
  candidate that no candidate beats and that beats every candidate before it.
\<close>

definition exact_hit :: "string \<Rightarrow> string \<Rightarrow> bool" where
  "exact_hit n_target cand = (cand \<noteq> [] \<and> cand = n_target)"

definition substring_hit :: "string \<Rightarrow> string \<Rightarrow> bool" where
  "substring_hit n_target cand =
     (cand \<noteq> [] \<and> ((n_target \<noteq> [] \<and> contains cand n_target) \<or> contains n_target cand))"

definition fuzzy_best :: "string \<Rightarrow> string list \<Rightarrow> nat \<Rightarrow> bool" where
  "fuzzy_best n_target cands n =
     (n < length cands \<and> cands ! n \<noteq> []
      \<and> (\<forall>c\<in>set cands. c \<noteq> [] \<longrightarrow> ratio n_target c \<le> ratio n_target (cands ! n))
      \<and> (\<forall>c\<in>set (take n cands). c \<noteq> [] \<longrightarrow> ratio n_target c < ratio n_target (cands ! n)))"

lemma exact_tier_Some:
  "exact_tier t i cs = Some n \<longleftrightarrow> (\<exists>k. n = i + k \<and> first_at (exact_hit t) cs k)"
proof (induction cs arbitrary: i)
  case Nil
  then show ?case by (simp add: first_at_def)
next
  case (Cons c cs)
  show ?case
  proof (cases "exact_hit t c")
    case True
    then show ?thesis by (auto simp: first_at_Cons exact_hit_def)
  next
    case False
    then have "exact_tier t i (c # cs) = exact_tier t (Suc i) cs"
      by (auto simp: exact_hit_def)
    then show ?thesis using False Cons.IH [of "Suc i"] by (auto simp: first_at_Cons)
  qed
qed

lemma exact_tier_None: "exact_tier t i cs = None \<longleftrightarrow> (\<forall>c\<in>set cs. \<not> exact_hit t c)"
  by (induction cs arbitrary: i) (auto simp: exact_hit_def)

lemma substring_tier_Some:
  "substring_tier t i cs = Some n \<longleftrightarrow> (\<exists>k. n = i + k \<and> first_at (substring_hit t) cs k)"
proof (induction cs arbitrary: i)
  case Nil
  then show ?case by (simp add: first_at_def)
next
  case (Cons c cs)
  show ?case
  proof (cases "substring_hit t c")
    case True
    then have "substring_tier t i (c # cs) = Some i"
      by (auto simp: substring_hit_def)
    then show ?thesis using True by (auto simp: first_at_Cons)
  next
    case False
    then have "substring_tier t i (c # cs) = substring_tier t (Suc i) cs"
      by (auto simp: substring_hit_def)
    then show ?thesis using False Cons.IH [of "Suc i"] by (auto simp: first_at_Cons)
  qed
qed

lemma substring_tier_None:
  "substring_tier t i cs = None \<longleftrightarrow> (\<forall>c\<in>set cs. \<not> substring_hit t c)"
  by (induction cs arbitrary: i) (auto simp: substring_hit_def)

lemma fuzzy_tier_fst:
  "br \<le> fst (fuzzy_tier t i cs (br, bi))
   \<and> (\<forall>c\<in>set cs. c \<noteq> [] \<longrightarrow> ratio t c \<le> fst (fuzzy_tier t i cs (br, bi)))"
proof (induction cs arbitrary: i br bi)
  case Nil
  then show ?case by simp
next
  case (Cons c cs)
  show ?case
    using Cons.IH [of br "Suc i" bi] Cons.IH [of "ratio t c" "Suc i" "Some i"]
    by (auto simp: not_less intro: order_trans less_imp_le)
qed

lemma fuzzy_tier_snd:
  "fuzzy_tier t i cs (br, bi) = (br, bi)
   \<or> (\<exists>k<length cs. fuzzy_tier t i cs (br, bi) = (ratio t (cs ! k), Some (i + k))
        \<and> cs ! k \<noteq> [] \<and> br < ratio t (cs ! k)
        \<and> (\<forall>c\<in>set (take k cs). c \<noteq> [] \<longrightarrow> ratio t c < ratio t (cs ! k)))"
proof (induction cs arbitrary: i br bi)
  case Nil
  then show ?case by simp
next
  case (Cons c cs)
  let ?P = "\<lambda>br k. cs ! k \<noteq> [] \<and> br < ratio t (cs ! k)
        \<and> (\<forall>c\<in>set (take k cs). c \<noteq> [] \<longrightarrow> ratio t c < ratio t (cs ! k))"
  consider (skip) "c = [] \<or> \<not> br < ratio t c" | (better) "c \<noteq> []" "br < ratio t c"
    by blast
  then show ?case
  proof cases
    case skip
    then have eq: "fuzzy_tier t i (c # cs) (br, bi) = fuzzy_tier t (Suc i) cs (br, bi)"
      by auto
    from Cons.IH [of "Suc i" br bi] show ?thesis
    proof
      assume "fuzzy_tier t (Suc i) cs (br, bi) = (br, bi)"
      with eq show ?thesis by simp
    next
      assume "\<exists>k<length cs. fuzzy_tier t (Suc i) cs (br, bi) = (ratio t (cs ! k), Some (Suc i + k))
                \<and> ?P br k"
      then obtain k where k: "k < length cs"
        "fuzzy_tier t (Suc i) cs (br, bi) = (ratio t (cs ! k), Some (Suc i + k))" "?P br k"
        by blast
      have "Suc k < length (c # cs)
            \<and> fuzzy_tier t i (c # cs) (br, bi) = (ratio t ((c # cs) ! Suc k), Some (i + Suc k))
            \<and> (c # cs) ! Suc k \<noteq> [] \<and> br < ratio t ((c # cs) ! Suc k)
            \<and> (\<forall>d\<in>set (take (Suc k) (c # cs)). d \<noteq> [] \<longrightarrow> ratio t d < ratio t ((c # cs) ! Suc k))"
        using k eq skip by auto
      then show ?thesis by blast
    qed
  next
    case better
    then have eq: "fuzzy_tier t i (c # cs) (br, bi) =
                   fuzzy_tier t (Suc i) cs (ratio t c, Some i)"
      by auto
    from Cons.IH [of "Suc i" "ratio t c" "Some i"] show ?thesis
    proof
      assume "fuzzy_tier t (Suc i) cs (ratio t c, Some i) = (ratio t c, Some i)"
      then have "0 < length (c # cs)
            \<and> fuzzy_tier t i (c # cs) (br, bi) = (ratio t ((c # cs) ! 0), Some (i + 0))
            \<and> (c # cs) ! 0 \<noteq> [] \<and> br < ratio t ((c # cs) ! 0)
            \<and> (\<forall>d\<in>set (take 0 (c # cs)). d \<noteq> [] \<longrightarrow> ratio t d < ratio t ((c # cs) ! 0))"
        using eq better by simp
      then show ?thesis by blast
    next
      assume "\<exists>k<length cs.
                fuzzy_tier t (Suc i) cs (ratio t c, Some i) = (ratio t (cs ! k), Some (Suc i + k))
                \<and> ?P (ratio t c) k"
      then obtain k where k: "k < length cs"
        "fuzzy_tier t (Suc i) cs (ratio t c, Some i) = (ratio t (cs ! k), Some (Suc i + k))"
        "?P (ratio t c) k"
        by blast
      have "Suc k < length (c # cs)
            \<and> fuzzy_tier t i (c # cs) (br, bi) = (ratio t ((c # cs) ! Suc k), Some (i + Suc k))
            \<and> (c # cs) ! Suc k \<noteq> [] \<and> br < ratio t ((c # cs) ! Suc k)
            \<and> (\<forall>d\<in>set (take (Suc k) (c # cs)). d \<noteq> [] \<longrightarrow> ratio t d < ratio t ((c # cs) ! Suc k))"
        using k eq better by auto
      then show ?thesis by blast
    qed
  qed
qed

definition fuzzy_pick :: "string \<Rightarrow> string list \<Rightarrow> rat \<Rightarrow> nat option" where
  "fuzzy_pick t cs min_ratio =
     (case fuzzy_tier t 0 cs (0, None) of
        (best_ratio, best_idx) \<Rightarrow> if best_ratio \<ge> min_ratio then best_idx else None)"

lemma fuzzy_pick_Some:
  assumes pos: "0 < min_ratio"
  shows "fuzzy_pick t cs min_ratio = Some n \<longleftrightarrow>
           fuzzy_best t cs n \<and> min_ratio \<le> ratio t (cs ! n)"
proof
  assume res: "fuzzy_pick t cs min_ratio = Some n"
  from fuzzy_tier_snd [of t 0 cs 0 None] show "fuzzy_best t cs n \<and> min_ratio \<le> ratio t (cs ! n)"
  proof
    assume "fuzzy_tier t 0 cs (0, None) = (0, None)"
    with res pos show ?thesis by (simp add: fuzzy_pick_def)
  next
    assume "\<exists>k<length cs. fuzzy_tier t 0 cs (0, None) = (ratio t (cs ! k), Some (0 + k))
              \<and> cs ! k \<noteq> [] \<and> 0 < ratio t (cs ! k)
              \<and> (\<forall>c\<in>set (take k cs). c \<noteq> [] \<longrightarrow> ratio t c < ratio t (cs ! k))"
    then obtain k where k: "k < length cs"
      "fuzzy_tier t 0 cs (0, None) = (ratio t (cs ! k), Some (0 + k))" "cs ! k \<noteq> []"
      "\<forall>c\<in>set (take k cs). c \<noteq> [] \<longrightarrow> ratio t c < ratio t (cs ! k)"
      by blast
    from res k(2) have n: "n = k" and ge: "min_ratio \<le> ratio t (cs ! k)"
      by (auto simp: fuzzy_pick_def split: if_splits)
    have "\<forall>c\<in>set cs. c \<noteq> [] \<longrightarrow> ratio t c \<le> ratio t (cs ! k)"
      using fuzzy_tier_fst [of 0 t 0 cs None] k(2) by simp
    with k n ge show ?thesis by (simp add: fuzzy_best_def)
  qed
next
  assume a: "fuzzy_best t cs n \<and> min_ratio \<le> ratio t (cs ! n)"
  then have n: "n < length cs" "cs ! n \<noteq> []"
    and mx: "\<forall>c\<in>set cs. c \<noteq> [] \<longrightarrow> ratio t c \<le> ratio t (cs ! n)"
    and fs: "\<forall>c\<in>set (take n cs). c \<noteq> [] \<longrightarrow> ratio t c < ratio t (cs ! n)"
    and ge: "min_ratio \<le> ratio t (cs ! n)"
    by (simp_all add: fuzzy_best_def)
  have le: "ratio t (cs ! n) \<le> fst (fuzzy_tier t 0 cs (0, None))"
    using fuzzy_tier_fst [of 0 t 0 cs None] n by simp
  from fuzzy_tier_snd [of t 0 cs 0 None] show "fuzzy_pick t cs min_ratio = Some n"
  proof
    assume "fuzzy_tier t 0 cs (0, None) = (0, None)"
    with le ge pos show ?thesis by simp
  next
    assume "\<exists>k<length cs. fuzzy_tier t 0 cs (0, None) = (ratio t (cs ! k), Some (0 + k))
              \<and> cs ! k \<noteq> [] \<and> 0 < ratio t (cs ! k)
              \<and> (\<forall>c\<in>set (take k cs). c \<noteq> [] \<longrightarrow> ratio t c < ratio t (cs ! k))"
    then obtain k where k: "k < length cs"
      "fuzzy_tier t 0 cs (0, None) = (ratio t (cs ! k), Some (0 + k))" "cs ! k \<noteq> []"
      "\<forall>c\<in>set (take k cs). c \<noteq> [] \<longrightarrow> ratio t c < ratio t (cs ! k)"
      by blast
    from le k(2) have nk: "ratio t (cs ! n) \<le> ratio t (cs ! k)" by simp
    from mx k(1,3) have kn: "ratio t (cs ! k) \<le> ratio t (cs ! n)" by simp
    have "\<not> k < n"
    proof
      assume "k < n"
      then have "cs ! k \<in> set (take n cs)"
        using n(1) by (auto simp: in_set_conv_nth intro!: exI [of _ k])
      with fs k(3) nk show False by auto
    qed
    moreover have "\<not> n < k"
    proof
      assume "n < k"
      then have "cs ! n \<in> set (take k cs)"
        using k(1) by (auto simp: in_set_conv_nth intro!: exI [of _ n])
      with k(4) n(2) kn show False by auto
    qed
    ultimately have "k = n" by simp
    with k(2) nk ge show ?thesis by (simp add: fuzzy_pick_def)
  qed
qed

lemma find_best_match_index_unfold:
  "find_best_match_index series plant_name min_ratio =
     (case exact_tier (normalize_name plant_name) 0 (candidates series) of
        Some i \<Rightarrow> Some i
      | None \<Rightarrow>
          (case substring_tier (normalize_name plant_name) 0 (candidates series) of
             Some i \<Rightarrow> Some i
           | None \<Rightarrow> fuzzy_pick (normalize_name plant_name) (candidates series) min_ratio))"
proof (cases "series = []")
  case True
  then show ?thesis
    by (simp add: find_best_match_index_def candidates_def fuzzy_pick_def)
next
  case False
  then show ?thesis
    unfolding find_best_match_index_def fuzzy_pick_def Let_def by simp
qed

text \<open>
  C1 (as the claim states it). The target \<open>(unknown)\<close> normalises to the empty text, which
  is a substring of the normalised label of row 0; the exact tier does not apply, and the
  substring tier as the claim words it would return row 0. The code returns no match.
\<close>

theorem find_best_match_index_substring_counterexample:
  "normalize_name ''PANIPAT TPS'' \<noteq> normalize_name ''(unknown)''
   \<and> contains (normalize_name ''PANIPAT TPS'') (normalize_name ''(unknown)'')
   \<and> find_best_match_index [Some ''PANIPAT TPS''] ''(unknown)'' (11 / 20) \<noteq> Some 0"
  by code_simp

text \<open>
  C1 (amended). With a positive threshold (0.55 by default), \<open>find_best_match_index\<close>
  returns row \<open>n\<close> exactly when \<open>n\<close> is the first row whose normalised label is not
  empty and equals the normalised target; or no row is such and \<open>n\<close> is the first row
  whose non-empty normalised label contains the non-empty normalised target or is contained
  in the normalised target; or no row passes either test and \<open>n\<close> is the row with the
  highest similarity ratio among the non-empty normalised labels, the first of them when
  several have it, and that ratio is at least the threshold. In every other case it
  returns no match.
\<close>

theorem find_best_match_index_tiers:
  assumes "0 < min_ratio"
  shows "find_best_match_index series plant_name min_ratio = Some n \<longleftrightarrow>
     first_at (exact_hit (normalize_name plant_name)) (candidates series) n
     \<or> ((\<forall>c\<in>set (candidates series). \<not> exact_hit (normalize_name plant_name) c)
         \<and> first_at (substring_hit (normalize_name plant_name)) (candidates series) n)
     \<or> ((\<forall>c\<in>set (candidates series). \<not> exact_hit (normalize_name plant_name) c
                                        \<and> \<not> substring_hit (normalize_name plant_name) c)
         \<and> fuzzy_best (normalize_name plant_name) (candidates series) n
         \<and> min_ratio \<le> ratio (normalize_name plant_name) (candidates series ! n))"
proof -
  let ?t = "normalize_name plant_name" and ?cs = "candidates series"
  show ?thesis
  proof (cases "exact_tier ?t 0 ?cs")
    case (Some i)
    then have i: "first_at (exact_hit ?t) ?cs i"
      by (simp add: exact_tier_Some)
    then have ex: "\<exists>c\<in>set ?cs. exact_hit ?t c"
      by (rule first_at_set)
    have "find_best_match_index series plant_name min_ratio = Some i"
      using Some by (simp add: find_best_match_index_unfold)
    moreover have "first_at (exact_hit ?t) ?cs n \<longleftrightarrow> i = n"
      using i first_at_unique by blast
    ultimately show ?thesis using ex by auto
  next
    case None
    then have nex: "\<forall>c\<in>set ?cs. \<not> exact_hit ?t c"
      by (simp add: exact_tier_None)
    then have nfirst: "\<not> first_at (exact_hit ?t) ?cs n"
      using first_at_set by blast
    show ?thesis
    proof (cases "substring_tier ?t 0 ?cs")
      case (Some i)
      then have i: "first_at (substring_hit ?t) ?cs i"
        by (simp add: substring_tier_Some)
      then have ex: "\<exists>c\<in>set ?cs. substring_hit ?t c"
        by (rule first_at_set)
      have "find_best_match_index series plant_name min_ratio = Some i"
        using None Some by (simp add: find_best_match_index_unfold)
      moreover have "first_at (substring_hit ?t) ?cs n \<longleftrightarrow> i = n"
        using i first_at_unique by blast
      ultimately show ?thesis using ex nex nfirst by auto
    next
      case sub: None
      then have nsub: "\<forall>c\<in>set ?cs. \<not> substring_hit ?t c"
        by (simp add: substring_tier_None)
      then have nsfirst: "\<not> first_at (substring_hit ?t) ?cs n"
        using first_at_set by blast
      have "find_best_match_index series plant_name min_ratio = fuzzy_pick ?t ?cs min_ratio"
        using None sub by (simp add: find_best_match_index_unfold)
      then show ?thesis
        using fuzzy_pick_Some [OF assms, of ?t ?cs n] nex nsub nfirst nsfirst by auto
    qed
  qed
qed

theorem find_best_match_index_tiers_witness:
  "(0 :: rat) < 11 / 20
   \<and> fuzzy_best (normalize_name ''ANPARA TPS'')
        (candidates [Some ''nan'', Some ''Anpra Thermal'', Some ''Anpara Thermal'']) 2
   \<and> find_best_match_index [Some ''nan'', Some ''Anpra Thermal'', Some ''Anpara Thermal'']
        ''ANPARA TPS'' (11 / 20) = Some 2"
proof -
  let ?series = "[Some ''nan'', Some ''Anpra Thermal'', Some ''Anpara Thermal'']"
  have pos: "(0 :: rat) < 11 / 20" by simp
  have none: "\<forall>c\<in>set (candidates ?series).
                \<not> exact_hit (normalize_name ''ANPARA TPS'') c
                \<and> \<not> substring_hit (normalize_name ''ANPARA TPS'') c"
    by code_simp
  have best: "fuzzy_best (normalize_name ''ANPARA TPS'') (candidates ?series) 2"
    by code_simp
  have ge: "11 / 20 \<le> ratio (normalize_name ''ANPARA TPS'') (candidates ?series ! 2)"
    by code_simp
  from none best ge find_best_match_index_tiers [OF pos, of ?series "''ANPARA TPS''" 2]
  have "find_best_match_index ?series ''ANPARA TPS'' (11 / 20) = Some 2"
    by blast
  with pos best show ?thesis by blast
qed

text \<open>
  C9. When neither the exact nor the substring tier matches and several rows have the
  highest ratio, at least the threshold, the row returned is the first of them: the row
  \<open>n\<close> that no row beats and that no earlier row equals.
\<close>

theorem fuzzy_tie_earliest:
  assumes "0 < min_ratio"
    and "\<forall>c\<in>set (candidates series). \<not> exact_hit (normalize_name plant_name) c
                                      \<and> \<not> substring_hit (normalize_name plant_name) c"
    and "n < length (candidates series)" and "candidates series ! n \<noteq> []"
    and "min_ratio \<le> ratio (normalize_name plant_name) (candidates series ! n)"
    and "\<forall>c\<in>set (candidates series). c \<noteq> [] \<longrightarrow>
           ratio (normalize_name plant_name) c
             \<le> ratio (normalize_name plant_name) (candidates series ! n)"
    and "\<forall>c\<in>set (take n (candidates series)). c \<noteq> [] \<longrightarrow>
           ratio (normalize_name plant_name) c
             \<noteq> ratio (normalize_name plant_name) (candidates series ! n)"
  shows "find_best_match_index series plant_name min_ratio = Some n"
proof -
  let ?t = "normalize_name plant_name" and ?cs = "candidates series"
  have "exact_tier ?t 0 ?cs = None" "substring_tier ?t 0 ?cs = None"
    using assms(2) by (simp_all add: exact_tier_None substring_tier_None)
  then have "find_best_match_index series plant_name min_ratio = fuzzy_pick ?t ?cs min_ratio"
    by (simp add: find_best_match_index_unfold)
  moreover have "\<forall>c\<in>set (take n ?cs). c \<noteq> [] \<longrightarrow> ratio ?t c < ratio ?t (?cs ! n)"
  proof (intro ballI impI)
    fix c assume c: "c \<in> set (take n ?cs)" "c \<noteq> []"
    then have "c \<in> set ?cs" by (rule_tac in_set_takeD)
    with assms(6) c(2) have "ratio ?t c \<le> ratio ?t (?cs ! n)" by simp
    moreover from assms(7) c have "ratio ?t c \<noteq> ratio ?t (?cs ! n)" by simp
    ultimately show "ratio ?t c < ratio ?t (?cs ! n)" by simp
  qed
  then have "fuzzy_best ?t ?cs n"
    using assms(3,4,6) by (simp add: fuzzy_best_def)
  ultimately show ?thesis
    using fuzzy_pick_Some [OF assms(1), of ?t ?cs n] assms(5) by simp
qed

theorem fuzzy_tie_earliest_witness:
  "ratio (normalize_name ''KOTA TPS'') (normalize_name ''Kota TPP A'') =
     ratio (normalize_name ''KOTA TPS'') (normalize_name ''Kota TPP B'')
   \<and> find_best_match_index [Some ''Obra'', Some ''Kota TPP A'', Some ''Kota TPP B'']
        ''KOTA TPS'' (11 / 20) = Some 1"
proof -
  let ?series = "[Some ''Obra'', Some ''Kota TPP A'', Some ''Kota TPP B'']"
  let ?t = "normalize_name ''KOTA TPS''"
  have tie: "ratio ?t (normalize_name ''Kota TPP A'') = ratio ?t (normalize_name ''Kota TPP B'')"
    by code_simp
  have 1: "(0 :: rat) < 11 / 20" by simp
  have 2: "\<forall>c\<in>set (candidates ?series). \<not> exact_hit ?t c \<and> \<not> substring_hit ?t c"
    by code_simp
  have 3: "1 < length (candidates ?series)" by code_simp
  have 4: "candidates ?series ! 1 \<noteq> []" by code_simp
  have 5: "11 / 20 \<le> ratio ?t (candidates ?series ! 1)" by code_simp
  have 6: "\<forall>c\<in>set (candidates ?series). c \<noteq> [] \<longrightarrow>
             ratio ?t c \<le> ratio ?t (candidates ?series ! 1)"
    by code_simp
  have 7: "\<forall>c\<in>set (take 1 (candidates ?series)). c \<noteq> [] \<longrightarrow>
             ratio ?t c \<noteq> ratio ?t (candidates ?series ! 1)"
    by code_simp
  from fuzzy_tie_earliest [OF 1 2 3 4 5 6 7] tie show ?thesis by simp
qed

lemma ratio_empty_target: "c \<noteq> [] \<Longrightarrow> ratio [] c = 0"
  by (simp add: ratio_def matches.simps [of "[]"] find_longest_match_empty)

text \<open>
  C10. A target plant name that normalises to the empty text matches no row, whatever the
  row labels and the threshold are.
\<close>

theorem empty_target_no_match:
  assumes "normalize_name plant_name = []"
  shows "find_best_match_index series plant_name min_ratio = None"
proof -
  let ?cs = "candidates series"
  have 1: "exact_tier [] 0 ?cs = None"
    by (simp add: exact_tier_None exact_hit_def)
  have "\<not> substring_hit [] c" for c
    by (cases c) (simp_all add: substring_hit_def)
  then have 2: "substring_tier [] 0 ?cs = None"
    by (simp add: substring_tier_None)
  have "fuzzy_tier [] i cs (0, None) = (0, None)" for i cs
    by (induction cs arbitrary: i) (simp_all add: ratio_empty_target)
  then have "fuzzy_pick [] ?cs min_ratio = None"
    by (simp add: fuzzy_pick_def)
  with 1 2 show ?thesis
    by (simp add: find_best_match_index_unfold assms)
qed

theorem empty_target_no_match_witness:
  "normalize_name ''(unknown)'' = []
   \<and> find_best_match_index [Some ''PANIPAT TPS'', None] ''(unknown)'' (11 / 20) = None"
proof -
  have "normalize_name ''(unknown)'' = []" by code_simp
  with empty_target_no_match [of "''(unknown)''" "[Some ''PANIPAT TPS'', None]" "11 / 20"]
  show ?thesis by simp
qed

end
